theory Spec2Isabelle
  imports Complex_Main
begin

section \<open>The collaborators of the CPU\<close>

text \<open>
  \<^verbatim>\<open>cpu.py\<close> imports its instruction format, its registers, its memory and its
  listener mechanism from modules that are not part of the sources at hand. Their
  interfaces are written down here once; the ALU and the CPU below are embedded from
  \<^verbatim>\<open>cpu.py\<close> itself.
\<close>

subsection \<open>Instruction format\<close>

text \<open>
  Modelled from the spec: the enumeration \<^verbatim>\<open>OpCode\<close> of
  \<^verbatim>\<open>instruction_set.instr_format\<close> (absent from the sources):
  the seven operation codes Add, Subtract, Multiply, Divide, Load, Store and Halt.
\<close>

datatype OpCode = HALT | LOAD | STORE | ADD | SUB | MUL | DIV

text \<open>
  Modelled from the spec: the flag enumeration \<^verbatim>\<open>CondFlag\<close> of
  \<^verbatim>\<open>instruction_set.instr_format\<close> (absent from the sources). A value is a set
  of the four condition bits Minus, Zero, Plus and Fault; \<^verbatim>\<open>&\<close> intersects two
  values, a value is true in a Python \<^verbatim>\<open>if\<close> when it holds at least one bit, and
  the always-true sentinel is the union of the four bits (the reading the spec gives of
  the condition test: the sentinel matches every current condition).
\<close>

datatype CondFlag = CondFlag (has_M: bool) (has_Z: bool) (has_P: bool) (has_V: bool)

definition CondFlag_M :: CondFlag where
  "CondFlag_M = CondFlag True False False False"

definition CondFlag_Z :: CondFlag where
  "CondFlag_Z = CondFlag False True False False"

definition CondFlag_P :: CondFlag where
  "CondFlag_P = CondFlag False False True False"

definition CondFlag_V :: CondFlag where
  "CondFlag_V = CondFlag False False False True"

definition CondFlag_ALWAYS :: CondFlag where
  "CondFlag_ALWAYS = CondFlag True True True True"

definition cond_and :: "CondFlag \<Rightarrow> CondFlag \<Rightarrow> CondFlag" where
  "cond_and a b =
     CondFlag (has_M a \<and> has_M b) (has_Z a \<and> has_Z b) (has_P a \<and> has_P b) (has_V a \<and> has_V b)"

definition cond_true :: "CondFlag \<Rightarrow> bool" where
  "cond_true a = (has_M a \<or> has_Z a \<or> has_P a \<or> has_V a)"

text \<open>
  Modelled from the spec: the class \<^verbatim>\<open>Instruction\<close> of
  \<^verbatim>\<open>instruction_set.instr_format\<close> (absent from the sources): the decoded view
  of one instruction word. The three register fields are unsigned bit fields, hence
  natural numbers; the offset is a signed integer. The decoding function itself is a
  parameter of \<open>step\<close> and \<open>run\<close> below.
\<close>

record Instruction =
  op :: OpCode
  cond :: CondFlag
  reg_target :: nat
  reg_src1 :: nat
  reg_src2 :: nat
  offset :: int

subsection \<open>Registers\<close>

text \<open>
  Modelled from the spec: the classes \<^verbatim>\<open>Register\<close> and \<^verbatim>\<open>ZeroRegister\<close>
  of \<^verbatim>\<open>cpu.register\<close> (absent from the sources). A register is a cell holding an
  unbounded Python integer, read by \<^verbatim>\<open>get\<close> and written by \<^verbatim>\<open>put\<close>; the
  zero register always reads 0 and discards what is put. A fresh cell is taken to
  hold 0.
\<close>

datatype Register = Register int | ZeroRegister

fun get :: "Register \<Rightarrow> int" where
  "get (Register v) = v"
| "get ZeroRegister = 0"

fun put :: "Register \<Rightarrow> int \<Rightarrow> Register" where
  "put (Register _) v = Register v"
| "put ZeroRegister v = ZeroRegister"

subsection \<open>Memory and listeners\<close>

text \<open>
  Modelled from the spec: the class \<^verbatim>\<open>Memory\<close> of \<^verbatim>\<open>cpu.memory\<close>
  (absent from the sources): \<^verbatim>\<open>get(address)\<close> and \<^verbatim>\<open>put(address, value)\<close>
  over plain integers, here a total function from addresses to words.

  Modelled from the spec: \<^verbatim>\<open>MVCListenable.notify_all\<close> of \<^verbatim>\<open>cpu.mvc\<close>
  (absent from the sources) hands the event to every registered listener, synchronously.
  What the listeners do is outside the CPU; the model records that the event was handed
  out, and when.
\<close>

subsection \<open>Errors\<close>

text \<open>The Python exceptions the embedded code can raise, as values.\<close>

datatype error = ZeroDivisionError | KeyError | IndexError

definition bind_err :: "error + 'a \<Rightarrow> ('a \<Rightarrow> error + 'b) \<Rightarrow> error + 'b" where
  "bind_err r f = (case r of Inl e \<Rightarrow> Inl e | Inr x \<Rightarrow> f x)"

section \<open>The arithmetic logic unit\<close>

text \<open>
  \<^verbatim>\<open>ALU.ALU_OPS\<close> is a dictionary from operation codes to two-argument functions.
  A key that is missing raises \<^verbatim>\<open>KeyError\<close> at the lookup, and \<^verbatim>\<open>//\<close>
  raises \<^verbatim>\<open>ZeroDivisionError\<close> on a zero divisor; on Python integers \<^verbatim>\<open>//\<close>
  rounds towards minus infinity, as \<open>div\<close> does on \<open>int\<close>.
\<close>

definition ALU_OPS :: "OpCode \<rightharpoonup> (int \<Rightarrow> int \<Rightarrow> error + int)" where
  "ALU_OPS =
     [ADD \<mapsto> (\<lambda>x y. Inr (x + y)),
      SUB \<mapsto> (\<lambda>x y. Inr (x - y)),
      MUL \<mapsto> (\<lambda>x y. Inr (x * y)),
      DIV \<mapsto> (\<lambda>x y. if y = 0 then Inl ZeroDivisionError else Inr (x div y)),
      LOAD \<mapsto> (\<lambda>x y. Inr (x + y)),
      STORE \<mapsto> (\<lambda>x y. Inr (x + y)),
      HALT \<mapsto> (\<lambda>x y. Inr 0)]"

text \<open>
  The expression \<^verbatim>\<open>self.ALU_OPS[op](in1, in2)\<close> inside the \<^verbatim>\<open>try\<close>, for
  the table \<open>ops\<close> that \<^verbatim>\<open>self.ALU_OPS\<close> yields and the value \<open>opc\<close> passed
  as \<^verbatim>\<open>op\<close>: a value that is no key of the table raises \<^verbatim>\<open>KeyError\<close>.
  The type of the keys is left open, since Python accepts any value as \<^verbatim>\<open>op\<close>.
\<close>

definition table_apply ::
  "('k \<rightharpoonup> (int \<Rightarrow> int \<Rightarrow> error + int)) \<Rightarrow> 'k \<Rightarrow> int \<Rightarrow> int \<Rightarrow> error + int" where
  "table_apply ops opc in1 in2 =
     (case ops opc of None \<Rightarrow> Inl KeyError | Some f \<Rightarrow> f in1 in2)"

text \<open>
  The body of \<^verbatim>\<open>ALU.exec\<close> over that table: the bare \<^verbatim>\<open>except\<close> turns every
  exception of the \<^verbatim>\<open>try\<close> block into the result \<^verbatim>\<open>(0, CondFlag.V)\<close>.
\<close>

definition exec_table ::
  "('k \<rightharpoonup> (int \<Rightarrow> int \<Rightarrow> error + int)) \<Rightarrow> 'k \<Rightarrow> int \<Rightarrow> int \<Rightarrow> int \<times> CondFlag" where
  "exec_table ops opc in1 in2 =
     (case table_apply ops opc in1 in2 of
        Inr sol \<Rightarrow>
          (sol, if sol = 0 then CondFlag_Z else if sol < 0 then CondFlag_M else CondFlag_P)
      | Inl e \<Rightarrow> (0, CondFlag_V))"

text \<open>
  \<^verbatim>\<open>ALU.exec\<close> as the CPU calls it: on the table of the class and an operation
  code of \<^verbatim>\<open>OpCode\<close>. \<open>alu_apply\<close> is the computation inside its \<^verbatim>\<open>try\<close>.
\<close>

definition alu_apply :: "OpCode \<Rightarrow> int \<Rightarrow> int \<Rightarrow> error + int" where
  "alu_apply opc in1 in2 = table_apply ALU_OPS opc in1 in2"

definition exec :: "OpCode \<Rightarrow> int \<Rightarrow> int \<Rightarrow> int \<times> CondFlag" where
  "exec opc in1 in2 = exec_table ALU_OPS opc in1 in2"

section \<open>The CPU\<close>

text \<open>
  \<^verbatim>\<open>CPUStep\<close>, the event of a beginning step, with the fields its constructor
  assigns. Its \<^verbatim>\<open>subject\<close> is the CPU object itself: there is one CPU, whose state
  is threaded through the functions below, and the place of the event in the trace fixes
  the state that a listener reads through \<^verbatim>\<open>subject\<close>.
\<close>

record CPUStep =
  pc_addr :: int
  instr_word :: int
  instr :: Instruction

text \<open>
  The calls by which a method of the CPU acts on anything but its local variables and
  its two flags: a broadcast to the listeners, \<^verbatim>\<open>put\<close> on a register,
  \<^verbatim>\<open>put\<close> on the memory.
\<close>

datatype action = Notify CPUStep | RegPut nat int | MemPut int int

text \<open>
  The CPU object: the memory it is connected to, its sixteen registers, the condition
  flag and the halted flag. \<open>trace\<close> is not an attribute of the Python object: it
  lists the actions performed so far, oldest first, so that the order of the effects of
  a step can be stated.
\<close>

record CPU =
  memory :: "int \<Rightarrow> int"
  registers :: "Register list"
  condition :: CondFlag
  halted :: bool
  trace :: "action list"

text \<open>\<^verbatim>\<open>CPU.__init__\<close>.\<close>

definition CPU_init :: "(int \<Rightarrow> int) \<Rightarrow> CPU" where
  "CPU_init mem =
     \<lparr>memory = mem,
      registers = [ZeroRegister, Register 0, Register 0, Register 0,
                   Register 0, Register 0, Register 0, Register 0,
                   Register 0, Register 0, Register 0, Register 0,
                   Register 0, Register 0, Register 0, Register 0],
      condition = CondFlag_ALWAYS,
      halted = False,
      trace = []\<rparr>"

text \<open>
  \<^verbatim>\<open>self.registers[i].get()\<close> and \<^verbatim>\<open>self.registers[i].put(v)\<close>: indexing a
  Python list beyond its end raises \<^verbatim>\<open>IndexError\<close>.
\<close>

definition reg_get :: "CPU \<Rightarrow> nat \<Rightarrow> error + int" where
  "reg_get s i =
     (if i < length (registers s) then Inr (get (registers s ! i)) else Inl IndexError)"

definition reg_put :: "nat \<Rightarrow> int \<Rightarrow> CPU \<Rightarrow> error + CPU" where
  "reg_put i v s =
     (if i < length (registers s)
      then Inr (s\<lparr>registers := (registers s)[i := put (registers s ! i) v],
                  trace := trace s @ [RegPut i v]\<rparr>)
      else Inl IndexError)"

text \<open>\<^verbatim>\<open>self.memory.put(a, v)\<close> and \<^verbatim>\<open>self.notify_all(event)\<close>.\<close>

definition mem_put :: "int \<Rightarrow> int \<Rightarrow> CPU \<Rightarrow> CPU" where
  "mem_put a v s = s\<lparr>memory := (memory s)(a := v), trace := trace s @ [MemPut a v]\<rparr>"

definition notify_all :: "CPUStep \<Rightarrow> CPU \<Rightarrow> CPU" where
  "notify_all ev s = s\<lparr>trace := trace s @ [Notify ev]\<rparr>"

text \<open>
  \<^verbatim>\<open>CPU.step\<close>, statement by statement and with the local names of the source
  (\<^verbatim>\<open>instr_word\<close> is what the source calls the value read from register 15,
  \<^verbatim>\<open>instr_addr\<close> what it calls the word read from memory, and \<^verbatim>\<open>result\<close> is
  first the outcome of the condition test, then the result of the ALU). The decoding
  function \<^verbatim>\<open>decode\<close> of \<^verbatim>\<open>instruction_set.instr_format\<close> is a parameter.
\<close>

definition step :: "(int \<Rightarrow> Instruction) \<Rightarrow> CPU \<Rightarrow> error + CPU" where
  "step decode s =
     bind_err (reg_get s 15) (\<lambda>instr_word.
     let instr_addr = memory s instr_word;
         instr = decode instr_addr;
         s1 = notify_all \<lparr>pc_addr = instr_addr, instr_word = instr_word, instr = instr\<rparr> s;
         result = cond_and (condition s1) (cond instr)
     in if cond_true result then
          bind_err (reg_get s1 (reg_src1 instr)) (\<lambda>l_operand.
          bind_err (reg_get s1 (reg_src2 instr)) (\<lambda>src2.
          let r_operand = src2 + offset instr;
              (result, new_cond) = exec (op instr) l_operand r_operand;
              s2 = s1\<lparr>condition := new_cond\<rparr>;
              s3 = (if new_cond = CondFlag_V then s2\<lparr>halted := True\<rparr> else s2)
          in bind_err (reg_get s3 15) (\<lambda>pc.
             let counter = pc + 1
             in bind_err (reg_put 15 counter s3) (\<lambda>s4.
                if op instr = HALT then Inr (s4\<lparr>halted := True\<rparr>)
                else if op instr = LOAD then
                  (let val = reg_target instr;
                       fetch_val = memory s4 result
                   in reg_put val fetch_val s4)
                else if op instr = STORE then
                  (let val = reg_target instr
                   in bind_err (reg_get s4 val) (\<lambda>fetch_val.
                      Inr (mem_put result fetch_val s4)))
                else
                  (let val = reg_target instr
                   in reg_put val result s4)))))
        else
          bind_err (reg_get s1 15) (\<lambda>pc.
          let counter = pc + 1
          in reg_put 15 counter s1))"

text \<open>
  \<^verbatim>\<open>CPU.run\<close> with \<^verbatim>\<open>single_step=False\<close> (the other mode only waits for the
  user before each step). \<open>run_init\<close> is the two assignments before the loop,
  \<open>run_loop\<close> the \<^verbatim>\<open>while\<close> loop, which need not end: \<open>None\<close> is a run that
  never returns, \<open>Some (Inl e)\<close> one that raises \<open>e\<close>.
\<close>

definition run_init :: "int \<Rightarrow> CPU \<Rightarrow> error + CPU" where
  "run_init from_addr s = reg_put 15 from_addr (s\<lparr>halted := False\<rparr>)"

partial_function (option) run_loop :: "(int \<Rightarrow> Instruction) \<Rightarrow> CPU \<Rightarrow> (error + CPU) option" where
  "run_loop decode s =
     (if \<not> halted s
      then (case step decode s of Inl e \<Rightarrow> Some (Inl e) | Inr s' \<Rightarrow> run_loop decode s')
      else Some (Inr s))"

definition run :: "(int \<Rightarrow> Instruction) \<Rightarrow> int \<Rightarrow> CPU \<Rightarrow> (error + CPU) option" where
  "run decode from_addr s =
     (case run_init from_addr s of Inl e \<Rightarrow> Some (Inl e) | Inr s0 \<Rightarrow> run_loop decode s0)"

text \<open>The first \<open>n\<close> iterations of the loop of \<^verbatim>\<open>run\<close>, for statements about it.\<close>

fun loop_n :: "(int \<Rightarrow> Instruction) \<Rightarrow> nat \<Rightarrow> CPU \<Rightarrow> error + CPU" where
  "loop_n decode 0 s = Inr s"
| "loop_n decode (Suc n) s =
     (if \<not> halted s
      then (case step decode s of Inl e \<Rightarrow> Inl e | Inr s' \<Rightarrow> loop_n decode n s')
      else Inr s)"

subsection \<open>What a step works on\<close>

text \<open>
  The shape \<^verbatim>\<open>CPU.__init__\<close> gives the register file, which no method changes:
  sixteen registers, the first the zero register, the others plain cells.
\<close>

definition cpu_wf :: "CPU \<Rightarrow> bool" where
  "cpu_wf s =
     (case registers s of
        [] \<Rightarrow> False
      | r0 # rs \<Rightarrow> r0 = ZeroRegister \<and> length rs = 15 \<and> ZeroRegister \<notin> set rs)"

text \<open>The value of the program counter, register 15.\<close>

definition PC :: "CPU \<Rightarrow> int" where
  "PC s = get (registers s ! 15)"

text \<open>The instruction a step decodes, and whether its condition test passes.\<close>

definition fetched :: "(int \<Rightarrow> Instruction) \<Rightarrow> CPU \<Rightarrow> Instruction" where
  "fetched decode s = decode (memory s (PC s))"

definition test_passes :: "(int \<Rightarrow> Instruction) \<Rightarrow> CPU \<Rightarrow> bool" where
  "test_passes decode s = cond_true (cond_and (condition s) (cond (fetched decode s)))"

text \<open>The guarantee of the decoder: register indices between 0 and 15.\<close>

definition valid_instr :: "Instruction \<Rightarrow> bool" where
  "valid_instr i = (reg_target i < 16 \<and> reg_src1 i < 16 \<and> reg_src2 i < 16)"

text \<open>
  What the ALU returns in a step whose condition test passes: the two operands are read
  from the source registers, the offset is added to the second.
\<close>

definition alu_out :: "(int \<Rightarrow> Instruction) \<Rightarrow> CPU \<Rightarrow> int \<times> CondFlag" where
  "alu_out decode s =
     (let i = fetched decode s
      in exec (op i) (get (registers s ! reg_src1 i)) (get (registers s ! reg_src2 i) + offset i))"

subsection \<open>Reachable states\<close>

text \<open>
  The states a CPU can be in: it is constructed over some memory, it steps, \<^verbatim>\<open>run\<close>
  sets it up for its loop (which then steps), and the memory it is connected to is
  loaded from outside. The boolean tells whether some step since the construction has
  passed its condition test.
\<close>

inductive reachable :: "(int \<Rightarrow> Instruction) \<Rightarrow> bool \<Rightarrow> CPU \<Rightarrow> bool"
  for decode :: "int \<Rightarrow> Instruction" where
  constructed: "reachable decode False (CPU_init mem)"
| stepped: "reachable decode b s \<Longrightarrow> step decode s = Inr s' \<Longrightarrow>
     reachable decode (b \<or> test_passes decode s) s'"
| run_started: "reachable decode b s \<Longrightarrow> run_init from_addr s = Inr s' \<Longrightarrow>
     reachable decode b s'"
| memory_loaded: "reachable decode b s \<Longrightarrow> reachable decode b (s\<lparr>memory := mem\<rparr>)"

subsection \<open>Example programs\<close>

text \<open>
  A decoder and memories for concrete runs. Word 1 is \<open>ADD r1,r0,r0[5]\<close>, word 2 is
  \<open>ADD r15,r0,r0[7]\<close>, word 3 is a Halt executed on Zero only, word 4 is
  \<open>DIV r2,r1,r0[0]\<close>, word 5 is \<open>SUB r3,r0,r0[1]\<close> executed on Zero only, and
  every other word is an unconditional Halt. \<open>example_memory ws\<close> holds the words
  \<open>ws\<close> from address 0 on and 0 elsewhere.
\<close>

definition example_decode :: "int \<Rightarrow> Instruction" where
  "example_decode w =
     (if w = 1 then
        \<lparr>op = ADD, cond = CondFlag_ALWAYS, reg_target = 1, reg_src1 = 0, reg_src2 = 0, offset = 5\<rparr>
      else if w = 2 then
        \<lparr>op = ADD, cond = CondFlag_ALWAYS, reg_target = 15, reg_src1 = 0, reg_src2 = 0, offset = 7\<rparr>
      else if w = 3 then
        \<lparr>op = HALT, cond = CondFlag_Z, reg_target = 0, reg_src1 = 0, reg_src2 = 0, offset = 0\<rparr>
      else if w = 4 then
        \<lparr>op = DIV, cond = CondFlag_ALWAYS, reg_target = 2, reg_src1 = 1, reg_src2 = 0, offset = 0\<rparr>
      else if w = 5 then
        \<lparr>op = SUB, cond = CondFlag_Z, reg_target = 3, reg_src1 = 0, reg_src2 = 0, offset = 1\<rparr>
      else
        \<lparr>op = HALT, cond = CondFlag_ALWAYS, reg_target = 0, reg_src1 = 0, reg_src2 = 0, offset = 0\<rparr>)"

definition example_memory :: "int list \<Rightarrow> int \<Rightarrow> int" where
  "example_memory ws a = (if 0 \<le> a \<and> a < int (length ws) then ws ! nat a else 0)"

section \<open>Properties of the arithmetic logic unit\<close>

lemma exec_unfold:
  "exec opc in1 in2 =
     (case alu_apply opc in1 in2 of
        Inr sol \<Rightarrow>
          (sol, if sol = 0 then CondFlag_Z else if sol < 0 then CondFlag_M else CondFlag_P)
      | Inl e \<Rightarrow> (0, CondFlag_V))"
  by (simp add: exec_def exec_table_def alu_apply_def)


lemma alu_apply_simps:
  "alu_apply ADD x y = Inr (x + y)"
  "alu_apply SUB x y = Inr (x - y)"
  "alu_apply MUL x y = Inr (x * y)"
  "alu_apply DIV x y = (if y = 0 then Inl ZeroDivisionError else Inr (x div y))"
  "alu_apply LOAD x y = Inr (x + y)"
  "alu_apply STORE x y = Inr (x + y)"
  "alu_apply HALT x y = Inr 0"
  by (simp_all add: alu_apply_def table_apply_def ALU_OPS_def)

lemma alu_apply_fails_iff:
  "alu_apply opc x y = Inl e \<longleftrightarrow> opc = DIV \<and> y = 0 \<and> e = ZeroDivisionError"
  by (cases opc) (auto simp: alu_apply_simps)

lemma flags_distinct:
  "CondFlag_Z \<noteq> CondFlag_V" "CondFlag_M \<noteq> CondFlag_V" "CondFlag_P \<noteq> CondFlag_V"
  "CondFlag_Z \<noteq> CondFlag_M" "CondFlag_Z \<noteq> CondFlag_P" "CondFlag_M \<noteq> CondFlag_P"
  "CondFlag_ALWAYS \<noteq> CondFlag_Z" "CondFlag_ALWAYS \<noteq> CondFlag_M"
  "CondFlag_ALWAYS \<noteq> CondFlag_P" "CondFlag_ALWAYS \<noteq> CondFlag_V"
  by (simp_all add: CondFlag_Z_def CondFlag_M_def CondFlag_P_def CondFlag_V_def
      CondFlag_ALWAYS_def)

lemma exec_flag_V_iff: "snd (exec opc x y) = CondFlag_V \<longleftrightarrow> opc = DIV \<and> y = 0"
  by (cases opc) (auto simp: exec_unfold alu_apply_simps flags_distinct)

text \<open>
  C5. Dividing by zero gives \<open>(0, Fault)\<close> for every dividend. Every failure of the
  unit's computation is turned into the value \<open>(0, Fault)\<close>: on the unit as the CPU
  calls it, and on any table and any value passed as operation code, in particular
  when that value is no key of the table (an unsupported operation code, whose lookup
  raises \<^verbatim>\<open>KeyError\<close>). The unit therefore returns a value for every operation
  code and every pair of integers; on the seven operation codes its only failing
  computation is the division by zero.
\<close>

theorem exec_never_raises:
  "exec DIV x 0 = (0, CondFlag_V)
   \<and> (\<forall>opc in1 in2 e. alu_apply opc in1 in2 = Inl e \<longrightarrow> exec opc in1 in2 = (0, CondFlag_V))
   \<and> (\<forall>(ops :: 'k \<rightharpoonup> (int \<Rightarrow> int \<Rightarrow> error + int)) k in1 in2.
         ops k = None \<longrightarrow>
           table_apply ops k in1 in2 = Inl KeyError
           \<and> exec_table ops k in1 in2 = (0, CondFlag_V))
   \<and> (\<forall>(ops :: 'k \<rightharpoonup> (int \<Rightarrow> int \<Rightarrow> error + int)) k in1 in2 e.
         table_apply ops k in1 in2 = Inl e \<longrightarrow> exec_table ops k in1 in2 = (0, CondFlag_V))
   \<and> (\<forall>opc in1 in2. \<exists>sol flag. exec opc in1 in2 = (sol, flag)
         \<and> (flag = CondFlag_V \<longleftrightarrow> opc = DIV \<and> in2 = 0)
         \<and> (flag = CondFlag_V \<longrightarrow> sol = 0))"
proof (intro conjI allI impI)
  show "exec DIV x 0 = (0, CondFlag_V)"
    by (simp add: exec_unfold alu_apply_simps)
next
  fix opc in1 in2 e
  assume "alu_apply opc in1 in2 = Inl e"
  then show "exec opc in1 in2 = (0, CondFlag_V)"
    by (simp add: exec_unfold)
next
  fix ops :: "'k \<rightharpoonup> (int \<Rightarrow> int \<Rightarrow> error + int)" and k in1 in2
  assume none: "ops k = None"
  then show "table_apply ops k in1 in2 = Inl KeyError"
    by (simp add: table_apply_def)
  from none show "exec_table ops k in1 in2 = (0, CondFlag_V)"
    by (simp add: exec_table_def table_apply_def)
next
  fix ops :: "'k \<rightharpoonup> (int \<Rightarrow> int \<Rightarrow> error + int)" and k in1 in2 e
  assume "table_apply ops k in1 in2 = Inl e"
  then show "exec_table ops k in1 in2 = (0, CondFlag_V)"
    by (simp add: exec_table_def)
next
  fix opc in1 in2
  have "snd (exec opc in1 in2) = CondFlag_V \<longleftrightarrow> opc = DIV \<and> in2 = 0"
    by (rule exec_flag_V_iff)
  moreover have "snd (exec opc in1 in2) = CondFlag_V \<longrightarrow> fst (exec opc in1 in2) = 0"
    by (cases opc) (auto simp: exec_unfold alu_apply_simps flags_distinct)
  ultimately show "\<exists>sol flag. exec opc in1 in2 = (sol, flag)
      \<and> (flag = CondFlag_V \<longleftrightarrow> opc = DIV \<and> in2 = 0) \<and> (flag = CondFlag_V \<longrightarrow> sol = 0)"
    by (cases "exec opc in1 in2") auto
qed

text \<open>
  The witness divides by zero, and it passes a value that is no operation code to the
  table of the class: \<open>case_option None ALU_OPS\<close> is that table on the values
  \<open>Some opc\<close> for the seven operation codes and has no entry for the value \<open>None\<close>.
\<close>

theorem exec_never_raises_witness:
  "alu_apply DIV 7 0 = Inl ZeroDivisionError \<and> exec DIV 7 0 = (0, CondFlag_V)
   \<and> exec DIV (- 3) 0 = (0, CondFlag_V)
   \<and> case_option None ALU_OPS None = None
   \<and> table_apply (case_option None ALU_OPS) None 1 2 = Inl KeyError
   \<and> exec_table (case_option None ALU_OPS) None 1 2 = (0, CondFlag_V)
   \<and> exec_table (case_option None ALU_OPS) (Some ADD) 1 2 = (3, CondFlag_P)"
proof -
  have fails: "alu_apply DIV 7 0 = Inl ZeroDivisionError"
    by (simp add: alu_apply_simps)
  have none: "case_option None ALU_OPS None = None"
    by simp
  have add: "exec_table (case_option None ALU_OPS) (Some ADD) 1 2 = (3, CondFlag_P)"
    by (simp add: exec_table_def table_apply_def ALU_OPS_def)
  from exec_never_raises [where ?'k = "OpCode option", of "- 3"] fails none add show ?thesis
    by blast
qed

text \<open>
  C6. For each of Add, Subtract, Multiply, Divide, Load and Store, whenever the
  computation succeeds (that is, unless it is a division by zero), the unit returns the
  result of the operation together with the flag derived from it: Zero for 0, Minus for
  a negative and Plus for a positive result. Add, Subtract and Multiply are integer
  addition, subtraction and multiplication, Divide is the floor of the exact quotient,
  Load and Store add their operands.
\<close>

theorem exec_result_and_flag:
  assumes "opc \<noteq> HALT" and "\<not> (opc = DIV \<and> y = 0)"
  shows "\<exists>sol flag. exec opc x y = (sol, flag)
     \<and> sol = (case opc of ADD \<Rightarrow> x + y | SUB \<Rightarrow> x - y | MUL \<Rightarrow> x * y
                | DIV \<Rightarrow> \<lfloor>real_of_int x / real_of_int y\<rfloor>
                | LOAD \<Rightarrow> x + y | STORE \<Rightarrow> x + y | HALT \<Rightarrow> 0)
     \<and> (sol = 0 \<longrightarrow> flag = CondFlag_Z)
     \<and> (sol < 0 \<longrightarrow> flag = CondFlag_M)
     \<and> (0 < sol \<longrightarrow> flag = CondFlag_P)"
  using assms
  by (cases opc) (auto simp: exec_unfold alu_apply_simps floor_divide_of_int_eq)

theorem exec_result_and_flag_witness:
  "exec DIV (- 7) 2 = (- 4, CondFlag_M) \<and> exec SUB 5 5 = (0, CondFlag_Z)
   \<and> exec STORE 3 4 = (7, CondFlag_P)"
  using exec_result_and_flag [of DIV 2 "- 7"] exec_result_and_flag [of SUB 5 5]
    exec_result_and_flag [of STORE 4 3]
  by auto

section \<open>The register file and one step\<close>

lemma cpu_wf_length: "cpu_wf s \<Longrightarrow> length (registers s) = 16"
  by (auto simp: cpu_wf_def split: list.splits)

lemma cpu_wf_zero: "cpu_wf s \<Longrightarrow> registers s ! 0 = ZeroRegister"
  by (auto simp: cpu_wf_def split: list.splits)

lemma cpu_wf_plain:
  assumes "cpu_wf s" and "0 < i" and "i < 16"
  shows "\<exists>v. registers s ! i = Register v"
proof -
  from assms(1) obtain rs where rs: "registers s = ZeroRegister # rs" "length rs = 15"
    "ZeroRegister \<notin> set rs"
    by (auto simp: cpu_wf_def split: list.splits)
  from assms(2,3) rs have "registers s ! i = rs ! (i - 1)" "i - 1 < length rs"
    by (auto simp: nth_Cons')
  with rs(3) have "registers s ! i \<noteq> ZeroRegister"
    by (metis nth_mem)
  then show ?thesis
    by (cases "registers s ! i") auto
qed

lemma cpu_wf_regs_update:
  assumes "cpu_wf s" and "registers s' = (registers s)[i := put (registers s ! i) v]"
  shows "cpu_wf s'"
proof -
  from assms(1) obtain rs where rs: "registers s = ZeroRegister # rs" "length rs = 15"
    "ZeroRegister \<notin> set rs"
    by (auto simp: cpu_wf_def split: list.splits)
  show ?thesis
  proof (cases i)
    case 0
    with assms(2) rs show ?thesis by (simp add: cpu_wf_def)
  next
    case (Suc j)
    show ?thesis
    proof (cases "j < length rs")
      case True
      with rs(3) have "rs ! j \<noteq> ZeroRegister" by (metis nth_mem)
      then have "put (rs ! j) v \<noteq> ZeroRegister" by (cases "rs ! j") auto
      with rs(3) have "ZeroRegister \<notin> set (rs[j := put (rs ! j) v])"
        using set_update_subset_insert [of rs j "put (rs ! j) v"] by auto
      with Suc assms(2) rs show ?thesis by (simp add: cpu_wf_def)
    next
      case False
      then have "rs[j := put (rs ! j) v] = rs" by (intro list_update_beyond) simp
      with Suc assms(2) rs show ?thesis by (simp add: cpu_wf_def)
    qed
  qed
qed

lemma cpu_wf_cong: "registers s' = registers s \<Longrightarrow> cpu_wf s' = cpu_wf s"
  by (simp add: cpu_wf_def)

lemma cpu_wf_init: "cpu_wf (CPU_init mem)"
  by (simp add: cpu_wf_def CPU_init_def)

lemma PC_put: "cpu_wf s \<Longrightarrow> put (registers s ! 15) v = Register v"
  using cpu_wf_plain [of s 15] by auto

lemma step_skipped:
  assumes wf: "cpu_wf s" and skip: "\<not> test_passes decode s"
  shows "step decode s =
     Inr (s\<lparr>registers := (registers s)[15 := Register (PC s + 1)],
            trace := trace s @
              [Notify \<lparr>pc_addr = memory s (PC s), instr_word = PC s,
                        instr = fetched decode s\<rparr>,
               RegPut 15 (PC s + 1)]\<rparr>)"
  using skip cpu_wf_length [OF wf] PC_put [OF wf]
  by (simp add: step_def reg_get_def reg_put_def bind_err_def notify_all_def Let_def
      test_passes_def fetched_def PC_def)

lemma step_executed:
  assumes wf: "cpu_wf s" and pass: "test_passes decode s"
    and valid: "valid_instr (fetched decode s)"
  shows "step decode s =
     (let i = fetched decode s; t = reg_target i; res = fst (alu_out decode s);
          s4 = s\<lparr>registers := (registers s)[15 := Register (PC s + 1)],
                 condition := snd (alu_out decode s),
                 halted := (halted s \<or> snd (alu_out decode s) = CondFlag_V),
                 trace := trace s @
                   [Notify \<lparr>pc_addr = memory s (PC s), instr_word = PC s, instr = i\<rparr>,
                    RegPut 15 (PC s + 1)]\<rparr>
      in if op i = HALT then Inr (s4\<lparr>halted := True\<rparr>)
         else if op i = LOAD then
           Inr (s4\<lparr>registers := (registers s4)[t := put (registers s4 ! t) (memory s res)],
                   trace := trace s4 @ [RegPut t (memory s res)]\<rparr>)
         else if op i = STORE then
           Inr (s4\<lparr>memory := (memory s)(res := get (registers s4 ! t)),
                   trace := trace s4 @ [MemPut res (get (registers s4 ! t))]\<rparr>)
         else
           Inr (s4\<lparr>registers := (registers s4)[t := put (registers s4 ! t) res],
                   trace := trace s4 @ [RegPut t res]\<rparr>))"
  using pass valid cpu_wf_length [OF wf] PC_put [OF wf]
  by (simp add: step_def reg_get_def reg_put_def bind_err_def notify_all_def Let_def mem_put_def
      test_passes_def fetched_def PC_def alu_out_def valid_instr_def split_beta)

lemma step_flags:
  assumes "step decode s = Inr s'"
  shows "condition s' = (if test_passes decode s then snd (alu_out decode s) else condition s)"
    and "halted s' = (halted s \<or> test_passes decode s \<and>
           (op (fetched decode s) = HALT \<or> snd (alu_out decode s) = CondFlag_V))"
  using assms
  by (auto simp: step_def reg_get_def reg_put_def bind_err_def notify_all_def Let_def mem_put_def
      test_passes_def fetched_def PC_def alu_out_def split_beta split: if_splits sum.splits)

lemma reg_put_wf: "reg_put i v s = Inr s' \<Longrightarrow> cpu_wf s \<Longrightarrow> cpu_wf s'"
  by (auto simp: reg_put_def split: if_splits intro: cpu_wf_regs_update [of s _ i v])

lemma cpu_wf_updates:
  "cpu_wf (s\<lparr>trace := tr\<rparr>) = cpu_wf s"
  "cpu_wf (s\<lparr>condition := c\<rparr>) = cpu_wf s"
  "cpu_wf (s\<lparr>halted := h\<rparr>) = cpu_wf s"
  "cpu_wf (s\<lparr>memory := m\<rparr>) = cpu_wf s"
  "cpu_wf (notify_all ev s) = cpu_wf s"
  "cpu_wf (mem_put a v s) = cpu_wf s"
  by (simp_all add: cpu_wf_def notify_all_def mem_put_def)

lemma step_wf:
  assumes "step decode s = Inr s'" and "cpu_wf s"
  shows "cpu_wf s'"
  using assms
  by (auto simp: step_def bind_err_def Let_def split_beta cpu_wf_updates
      split: if_splits sum.splits dest!: reg_put_wf)

section \<open>The loop of run\<close>

lemma run_init_result:
  assumes "cpu_wf s"
  shows "run_init from_addr s =
     Inr (s\<lparr>halted := False, registers := (registers s)[15 := Register from_addr],
            trace := trace s @ [RegPut 15 from_addr]\<rparr>)"
  using cpu_wf_length [OF assms] PC_put [OF assms]
  by (simp add: run_init_def reg_put_def)

lemma run_loop_halted: "halted s \<Longrightarrow> run_loop decode s = Some (Inr s)"
  by (subst run_loop.simps) simp

lemma run_loop_step:
  "\<not> halted s \<Longrightarrow> step decode s = Inr s' \<Longrightarrow> run_loop decode s = run_loop decode s'"
  by (subst run_loop.simps) simp

lemma run_loop_loop_n:
  "loop_n decode n s = Inr s' \<Longrightarrow> run_loop decode s = run_loop decode s'"
proof (induction n arbitrary: s)
  case 0
  then show ?case by simp
next
  case (Suc n)
  show ?case
  proof (cases "halted s")
    case True
    with Suc.prems show ?thesis by simp
  next
    case False
    with Suc.prems obtain s1 where s1: "step decode s = Inr s1" "loop_n decode n s1 = Inr s'"
      by (auto split: sum.splits)
    from False s1(1) have "run_loop decode s = run_loop decode s1"
      by (rule run_loop_step)
    with Suc.IH [OF s1(2)] show ?thesis by simp
  qed
qed

lemma run_loop_returns:
  assumes "run_loop decode s = Some r"
  shows "\<exists>n. loop_n decode n s = r \<and> (case r of Inl e \<Rightarrow> True | Inr s' \<Rightarrow> halted s')"
  using assms
proof (induction decode s r rule: run_loop.raw_induct [rotated 1, consumes 1])
  case (1 run_loop' decode s r)
  show ?case
  proof (cases "halted s")
    case True
    with 1(2) have "loop_n decode 0 s = r \<and> (case r of Inl e \<Rightarrow> True | Inr s' \<Rightarrow> halted s')"
      by auto
    then show ?thesis by blast
  next
    case False
    show ?thesis
    proof (cases "step decode s")
      case (Inl e)
      with False 1(2) have "loop_n decode (Suc 0) s = r \<and> (case r of Inl e \<Rightarrow> True | Inr s' \<Rightarrow> halted s')"
        by auto
      then show ?thesis by blast
    next
      case (Inr s1)
      with False 1(2) have "run_loop' decode s1 = Some r" by simp
      from 1(1) [OF this] obtain n where
        "loop_n decode n s1 = r \<and> (case r of Inl e \<Rightarrow> True | Inr s' \<Rightarrow> halted s')" by blast
      with False Inr have
        "loop_n decode (Suc n) s = r \<and> (case r of Inl e \<Rightarrow> True | Inr s' \<Rightarrow> halted s')"
        by simp
      then show ?thesis by blast
    qed
  qed
qed


section \<open>Evaluating the examples\<close>

lemmas flag_defs = CondFlag_M_def CondFlag_Z_def CondFlag_P_def CondFlag_V_def
  CondFlag_ALWAYS_def cond_and_def cond_true_def

lemmas example_defs = example_decode_def example_memory_def CPU_init_def PC_def fetched_def
  test_passes_def alu_out_def valid_instr_def

section \<open>Skipped steps\<close>

text \<open>
  C4. A step whose condition test fails (the conjunction of the current condition with
  the mask of the fetched instruction holds no bit) returns normally, leaves every
  register but register 15, the memory, the condition and the halted flag as they were,
  and adds exactly 1 to the program counter.
\<close>

theorem step_skipped_frame:
  assumes "cpu_wf s" and "\<not> test_passes decode s"
  shows "\<exists>s'. step decode s = Inr s'
     \<and> length (registers s') = length (registers s)
     \<and> (\<forall>i. i \<noteq> 15 \<longrightarrow> registers s' ! i = registers s ! i)
     \<and> memory s' = memory s
     \<and> condition s' = condition s
     \<and> halted s' = halted s
     \<and> PC s' = PC s + 1"
  using step_skipped [OF assms] cpu_wf_length [OF assms(1)]
  by (simp add: PC_def)

theorem step_skipped_frame_witness:
  "cpu_wf ((CPU_init (example_memory [5]))\<lparr>condition := CondFlag_P\<rparr>)
   \<and> \<not> test_passes example_decode ((CPU_init (example_memory [5]))\<lparr>condition := CondFlag_P\<rparr>)
   \<and> PC (projr (step example_decode ((CPU_init (example_memory [5]))\<lparr>condition := CondFlag_P\<rparr>))) = 1
   \<and> registers (projr (step example_decode ((CPU_init (example_memory [5]))\<lparr>condition := CondFlag_P\<rparr>))) ! 3
       = Register 0"
proof -
  let ?s = "(CPU_init (example_memory [5]))\<lparr>condition := CondFlag_P\<rparr>"
  have wf: "cpu_wf ?s"
    by (simp add: cpu_wf_updates cpu_wf_init)
  have pc: "PC ?s = 0"
    by (simp add: example_defs)
  have skip: "\<not> test_passes example_decode ?s"
    by (simp add: example_defs flag_defs)
  have r3: "registers ?s ! 3 = Register 0"
    by (simp add: CPU_init_def)
  from step_skipped_frame [OF wf skip] wf skip pc r3 show ?thesis
    by auto
qed

section \<open>Further facts about steps\<close>

lemma exec_flag_cases:
  "snd (exec opc x y) \<in> {CondFlag_Z, CondFlag_M, CondFlag_P, CondFlag_V}"
  by (simp add: exec_unfold split: sum.splits)

lemma run_init_condition: "run_init a s = Inr s' \<Longrightarrow> condition s' = condition s"
  by (auto simp: run_init_def reg_put_def split: if_splits)

lemmas step_defs = step_def reg_get_def reg_put_def bind_err_def notify_all_def mem_put_def
  Let_def exec_unfold alu_apply_simps

lemma example_step_add:
  "step example_decode (CPU_init (example_memory (1 # ws))) =
     Inr \<lparr>memory = example_memory (1 # ws),
          registers = [ZeroRegister, Register 5, Register 0, Register 0,
                       Register 0, Register 0, Register 0, Register 0,
                       Register 0, Register 0, Register 0, Register 0,
                       Register 0, Register 0, Register 0, Register 1],
          condition = CondFlag_P, halted = False,
          trace = [Notify \<lparr>pc_addr = 1, instr_word = 0, instr = example_decode 1\<rparr>,
                   RegPut 15 1, RegPut 1 5]\<rparr>"
  by (simp add: step_defs example_defs flag_defs)

lemma step_notifies_once:
  assumes "step decode s = Inr s'"
  shows "\<exists>rest. trace s' = trace s @
           Notify \<lparr>pc_addr = memory s (PC s), instr_word = PC s, instr = fetched decode s\<rparr> # rest
         \<and> (\<forall>ev. Notify ev \<notin> set rest)"
  using assms
  by (auto simp: step_def reg_get_def reg_put_def bind_err_def notify_all_def Let_def mem_put_def
      fetched_def PC_def split_beta split: if_splits sum.splits)

lemma exec_fault_result: "snd (exec opc x y) = CondFlag_V \<Longrightarrow> fst (exec opc x y) = 0"
  by (cases opc) (auto simp: exec_unfold alu_apply_simps flags_distinct split: if_splits)

section \<open>The order of the effects of a step\<close>

text \<open>
  C1 fails as stated: in a step whose condition test passes, the program counter is
  written first and the instruction's own write comes last. Here \<open>ADD r15,r0,r0[7]\<close>
  is executed at address 0: register 15 is first set to 1, then to 7, and the step ends
  with the program counter at 7, not at the 8 that an increment after the write of the
  target would leave.
\<close>

theorem step_target_write_follows_pc_advance:
  "test_passes example_decode (CPU_init (example_memory [2]))
   \<and> step example_decode (CPU_init (example_memory [2])) =
       Inr \<lparr>memory = example_memory [2],
            registers = [ZeroRegister, Register 0, Register 0, Register 0,
                         Register 0, Register 0, Register 0, Register 0,
                         Register 0, Register 0, Register 0, Register 0,
                         Register 0, Register 0, Register 0, Register 7],
            condition = CondFlag_P, halted = False,
            trace = [Notify \<lparr>pc_addr = 2, instr_word = 0, instr = example_decode 2\<rparr>,
                     RegPut 15 1, RegPut 15 7]\<rparr>
   \<and> PC (projr (step example_decode (CPU_init (example_memory [2])))) = 7
   \<and> last (trace (projr (step example_decode (CPU_init (example_memory [2]))))) \<noteq> RegPut 15 (7 + 1)"
  by (simp add: step_defs example_defs flag_defs)

text \<open>
  C1, amended. In every step whose condition test passes, on a register file as
  constructed and with register indices as the decoder guarantees them, the actions are,
  in this order: the broadcast of the event, the write of the program counter plus 1 to
  register 15, and last the write of the operation (none for Halt, the loaded word into
  the target register for Load, the target register's value into memory for Store, the
  result into the target register for Add, Subtract, Multiply and Divide). So a write
  to target 15 replaces the incremented program counter, and a Store of register 15
  stores the incremented one.
\<close>

theorem step_pc_advance_precedes_write:
  assumes "cpu_wf s" and "test_passes decode s" and "valid_instr (fetched decode s)"
  shows "\<exists>s'. step decode s = Inr s'
     \<and> trace s' = trace s @
         [Notify \<lparr>pc_addr = memory s (PC s), instr_word = PC s, instr = fetched decode s\<rparr>,
          RegPut 15 (PC s + 1)] @
         (let t = reg_target (fetched decode s); res = fst (alu_out decode s)
          in case op (fetched decode s) of
               HALT \<Rightarrow> []
             | LOAD \<Rightarrow> [RegPut t (memory s res)]
             | STORE \<Rightarrow> [MemPut res (if t = 15 then PC s + 1 else get (registers s ! t))]
             | _ \<Rightarrow> [RegPut t res])
     \<and> PC s' =
         (if reg_target (fetched decode s) = 15 \<and> op (fetched decode s) \<notin> {HALT, STORE}
          then (if op (fetched decode s) = LOAD then memory s (fst (alu_out decode s))
                else fst (alu_out decode s))
          else PC s + 1)"
proof -
  have len: "length (registers s) = 16"
    by (rule cpu_wf_length [OF assms(1)])
  have pc: "\<And>v. put (Register (PC s + 1)) v = Register v"
    by simp
  show ?thesis
    using step_executed [OF assms] len
    by (cases "op (fetched decode s)") (auto simp: Let_def PC_def)
qed

theorem step_pc_advance_precedes_write_witness:
  "cpu_wf (CPU_init (example_memory [1, 0]))
   \<and> test_passes example_decode (CPU_init (example_memory [1, 0]))
   \<and> valid_instr (fetched example_decode (CPU_init (example_memory [1, 0])))
   \<and> trace (projr (step example_decode (CPU_init (example_memory [1, 0])))) =
       [Notify \<lparr>pc_addr = 1, instr_word = 0, instr = example_decode 1\<rparr>, RegPut 15 1, RegPut 1 5]
   \<and> PC (projr (step example_decode (CPU_init (example_memory [1, 0])))) = 1"
proof -
  let ?c = "CPU_init (example_memory [1, 0])"
  have wf: "cpu_wf ?c"
    by (rule cpu_wf_init)
  have pass: "test_passes example_decode ?c"
    by (simp add: example_defs flag_defs)
  have valid: "valid_instr (fetched example_decode ?c)"
    by (simp add: example_defs)
  have f: "fetched example_decode ?c = example_decode 1" "PC ?c = 0" "memory ?c 0 = 1"
    "trace ?c = []"
    by (simp_all add: example_defs)
  have a: "alu_out example_decode ?c = (5, CondFlag_P)"
    by (simp add: example_defs exec_unfold alu_apply_simps)
  have i: "op (example_decode 1) = ADD" "reg_target (example_decode 1) = 1"
    by (simp_all add: example_decode_def)
  from step_pc_advance_precedes_write [OF wf pass valid] wf pass valid show ?thesis
    by (auto simp: f a i)
qed

section \<open>The event of a step\<close>

text \<open>
  C2. The event of a step is broadcast once and before every other action of the step
  (lemma \<open>step_notifies_once\<close>), but its two address fields are exchanged: the
  constructor of \<^verbatim>\<open>CPUStep\<close> receives the word read from memory as \<^verbatim>\<open>pc_addr\<close>
  and the value of the program counter as \<^verbatim>\<open>instr_word\<close>. Here the program
  counter is 3 and the word at address 3 is 1: the event carries \<open>pc_addr = 1\<close> and
  \<open>instr_word = 3\<close>.
\<close>

theorem step_event_fields_swapped:
  "PC (projr (run_init 3 (CPU_init (example_memory [0, 0, 0, 1])))) = 3
   \<and> memory (projr (run_init 3 (CPU_init (example_memory [0, 0, 0, 1])))) 3 = 1
   \<and> trace (projr (run_init 3 (CPU_init (example_memory [0, 0, 0, 1])))) = [RegPut 15 3]
   \<and> trace (projr (step example_decode (projr (run_init 3 (CPU_init (example_memory [0, 0, 0, 1])))))) =
       [RegPut 15 3,
        Notify \<lparr>pc_addr = 1, instr_word = 3, instr = example_decode 1\<rparr>,
        RegPut 15 4, RegPut 1 5]"
  by (simp add: run_init_def step_defs example_defs flag_defs)

section \<open>The condition flag\<close>

text \<open>
  C3 fails as stated: the constructor sets the condition to the always-true sentinel,
  so the sentinel is the current condition of a freshly constructed CPU.
\<close>

theorem fresh_cpu_condition_always:
  "reachable example_decode False (CPU_init (example_memory [1, 0]))
   \<and> condition (CPU_init (example_memory [1, 0])) = CondFlag_ALWAYS
   \<and> CondFlag_ALWAYS \<notin> {CondFlag_Z, CondFlag_M, CondFlag_P, CondFlag_V}"
  by (simp add: reachable.constructed flags_distinct) (simp add: CPU_init_def)

text \<open>
  C3, amended. In every reachable state the condition is the always-true sentinel as
  long as no step since the construction has passed its condition test, and one of
  Zero, Minus, Plus and Fault from the first such step on.
\<close>

theorem reachable_condition:
  assumes "reachable decode b s"
  shows "if b then condition s \<in> {CondFlag_Z, CondFlag_M, CondFlag_P, CondFlag_V}
         else condition s = CondFlag_ALWAYS"
  using assms
proof (induction rule: reachable.induct)
  case (constructed mem)
  show ?case by (simp add: CPU_init_def)
next
  case (stepped b s s')
  from stepped(2) have
    "condition s' = (if test_passes decode s then snd (alu_out decode s) else condition s)"
    by (rule step_flags(1))
  with stepped(3) show ?case
    using exec_flag_cases by (auto simp: alu_out_def Let_def split: if_splits)
next
  case (run_started b s from_addr s')
  then show ?case by (auto simp: run_init_condition split: if_splits)
next
  case (memory_loaded b s mem)
  then show ?case by (auto split: if_splits)
qed

theorem reachable_condition_witness:
  "reachable example_decode True (projr (step example_decode (CPU_init (example_memory [1, 0]))))
   \<and> condition (projr (step example_decode (CPU_init (example_memory [1, 0]))))
       \<in> {CondFlag_Z, CondFlag_M, CondFlag_P, CondFlag_V}"
proof -
  let ?c = "CPU_init (example_memory [1, 0])"
  have st: "step example_decode ?c = Inr (projr (step example_decode ?c))"
    by (simp add: example_step_add)
  have "test_passes example_decode ?c"
    by (simp add: example_defs flag_defs)
  with reachable.stepped [OF reachable.constructed st]
  have r: "reachable example_decode True (projr (step example_decode ?c))"
    by simp
  from reachable_condition [OF r] r show ?thesis
    by simp
qed

section \<open>Faults\<close>

text \<open>
  C7. When the ALU returns the Fault flag in a step whose condition test passes (on a
  register file as constructed, with register indices as the decoder guarantees them),
  the step returns normally with the condition Fault and halted true; it has still
  written the program counter plus 1 to register 15 and then performed the write of
  its operation, which is a Divide with result 0 written to the target register; the
  memory is unchanged; and the loop of \<^verbatim>\<open>run\<close>, taking this step, ends there
  and returns normally.
\<close>

theorem step_fault_halts:
  assumes wf: "cpu_wf s" and pass: "test_passes decode s"
    and valid: "valid_instr (fetched decode s)"
    and fault: "snd (alu_out decode s) = CondFlag_V"
  shows "\<exists>s'. step decode s = Inr s'
     \<and> condition s' = CondFlag_V \<and> halted s'
     \<and> op (fetched decode s) = DIV \<and> fst (alu_out decode s) = 0
     \<and> trace s' = trace s @
         [Notify \<lparr>pc_addr = memory s (PC s), instr_word = PC s, instr = fetched decode s\<rparr>,
          RegPut 15 (PC s + 1),
          RegPut (reg_target (fetched decode s)) 0]
     \<and> registers s' =
         ((registers s)[15 := Register (PC s + 1)])
           [reg_target (fetched decode s) :=
              put (((registers s)[15 := Register (PC s + 1)]) ! reg_target (fetched decode s)) 0]
     \<and> memory s' = memory s
     \<and> run_loop decode s' = Some (Inr s')
     \<and> (\<not> halted s \<longrightarrow> run_loop decode s = Some (Inr s'))"
proof -
  from fault have dv: "op (fetched decode s) = DIV"
    by (simp add: alu_out_def Let_def exec_flag_V_iff)
  from fault have zero: "fst (alu_out decode s) = 0"
    by (simp add: alu_out_def Let_def exec_fault_result)
  let ?r4 = "(registers s)[15 := Register (PC s + 1)]"
  let ?t = "reg_target (fetched decode s)"
  let ?s' = "s\<lparr>registers := ?r4[?t := put (?r4 ! ?t) 0],
               condition := CondFlag_V, halted := True,
               trace := trace s @
                 [Notify \<lparr>pc_addr = memory s (PC s), instr_word = PC s, instr = fetched decode s\<rparr>,
                  RegPut 15 (PC s + 1), RegPut ?t 0]\<rparr>"
  have st: "step decode s = Inr ?s'"
    using step_executed [OF wf pass valid] dv zero fault
    by (simp add: Let_def)
  have h: "run_loop decode ?s' = Some (Inr ?s')"
    by (rule run_loop_halted) simp
  have c: "\<not> halted s \<longrightarrow> run_loop decode s = Some (Inr ?s')"
    using run_loop_step [OF _ st] h by (simp only:) blast
  show ?thesis
  proof (intro exI conjI)
    show "step decode s = Inr ?s'" by (rule st)
    show "run_loop decode ?s' = Some (Inr ?s')" by (rule h)
    show "\<not> halted s \<longrightarrow> run_loop decode s = Some (Inr ?s')" by (rule c)
  qed (simp_all add: dv zero)
qed

theorem step_fault_halts_witness:
  "cpu_wf (CPU_init (example_memory [4]))
   \<and> test_passes example_decode (CPU_init (example_memory [4]))
   \<and> valid_instr (fetched example_decode (CPU_init (example_memory [4])))
   \<and> alu_out example_decode (CPU_init (example_memory [4])) = (0, CondFlag_V)
   \<and> condition (projr (step example_decode (CPU_init (example_memory [4])))) = CondFlag_V
   \<and> halted (projr (step example_decode (CPU_init (example_memory [4]))))
   \<and> run_loop example_decode (CPU_init (example_memory [4])) =
       Some (Inr (projr (step example_decode (CPU_init (example_memory [4])))))"
proof -
  let ?c = "CPU_init (example_memory [4])"
  have wf: "cpu_wf ?c"
    by (rule cpu_wf_init)
  have pass: "test_passes example_decode ?c"
    by (simp add: example_defs flag_defs)
  have valid: "valid_instr (fetched example_decode ?c)"
    by (simp add: example_defs)
  have a: "alu_out example_decode ?c = (0, CondFlag_V)"
    by (simp add: example_defs exec_unfold alu_apply_simps)
  then have fault: "snd (alu_out example_decode ?c) = CondFlag_V"
    by simp
  have nh: "\<not> halted ?c"
    by (simp add: CPU_init_def)
  from step_fault_halts [OF wf pass valid fault] wf pass valid a nh show ?thesis
    by auto
qed

section \<open>The set-up of run\<close>

text \<open>
  C10. The two assignments with which \<^verbatim>\<open>run\<close> begins clear the halted flag and
  write the start address to register 15; they leave the condition flag, every other
  register and the memory as they were, and the first step of the run is taken in
  that state.
\<close>

theorem run_init_keeps_condition:
  assumes "cpu_wf s"
  shows "\<exists>s0. run_init from_addr s = Inr s0
     \<and> condition s0 = condition s
     \<and> length (registers s0) = length (registers s)
     \<and> (\<forall>i. i \<noteq> 15 \<longrightarrow> registers s0 ! i = registers s ! i)
     \<and> memory s0 = memory s
     \<and> \<not> halted s0 \<and> PC s0 = from_addr
     \<and> run decode from_addr s =
         (case step decode s0 of Inl e \<Rightarrow> Some (Inl e) | Inr s1 \<Rightarrow> run_loop decode s1)"
proof -
  let ?s0 = "s\<lparr>halted := False, registers := (registers s)[15 := Register from_addr],
            trace := trace s @ [RegPut 15 from_addr]\<rparr>"
  have init: "run_init from_addr s = Inr ?s0"
    by (rule run_init_result [OF assms])
  have "run decode from_addr s = run_loop decode ?s0"
    by (simp add: run_def init)
  also have "\<dots> = (case step decode ?s0 of Inl e \<Rightarrow> Some (Inl e) | Inr s1 \<Rightarrow> run_loop decode s1)"
    by (subst run_loop.simps) simp
  finally show ?thesis
    using init cpu_wf_length [OF assms] by (simp add: PC_def)
qed

theorem run_init_keeps_condition_witness:
  "cpu_wf ((CPU_init (example_memory [1, 0]))\<lparr>condition := CondFlag_V, halted := True\<rparr>)
   \<and> condition (projr (run_init 0 ((CPU_init (example_memory [1, 0]))\<lparr>condition := CondFlag_V, halted := True\<rparr>)))
       = CondFlag_V
   \<and> \<not> halted (projr (run_init 0 ((CPU_init (example_memory [1, 0]))\<lparr>condition := CondFlag_V, halted := True\<rparr>)))"
proof -
  let ?s = "(CPU_init (example_memory [1, 0]))\<lparr>condition := CondFlag_V, halted := True\<rparr>"
  have wf: "cpu_wf ?s"
    by (simp add: cpu_wf_updates cpu_wf_init)
  from run_init_keeps_condition [OF wf, of 0 example_decode] wf show ?thesis
    by auto
qed

section \<open>Runs\<close>

lemma loop_n_wf:
  "loop_n decode n s = Inr s' \<Longrightarrow> cpu_wf s \<Longrightarrow> cpu_wf s'"
proof (induction n arbitrary: s)
  case 0
  then show ?case by simp
next
  case (Suc n)
  show ?case
  proof (cases "halted s")
    case True
    with Suc.prems show ?thesis by simp
  next
    case False
    with Suc.prems(1) obtain s1 where s1: "step decode s = Inr s1" "loop_n decode n s1 = Inr s'"
      by (auto split: sum.splits)
    from step_wf [OF s1(1) Suc.prems(2)] Suc.IH [OF s1(2)] show ?thesis by simp
  qed
qed

lemma step_total:
  assumes "cpu_wf s" and "valid_instr (fetched decode s)"
  shows "\<exists>s'. step decode s = Inr s'"
proof (cases "test_passes decode s")
  case True
  from step_executed [OF assms(1) True assms(2)] show ?thesis
    by (simp add: Let_def split: if_splits)
next
  case False
  from step_skipped [OF assms(1) False] show ?thesis by simp
qed

lemma loop_n_total:
  assumes "\<forall>w. valid_instr (decode w)" and "cpu_wf s"
  shows "\<exists>s'. loop_n decode n s = Inr s'"
  using assms(2)
proof (induction n arbitrary: s)
  case 0
  then show ?case by simp
next
  case (Suc n)
  show ?case
  proof (cases "halted s")
    case True
    then show ?thesis by simp
  next
    case False
    from assms(1) have "valid_instr (fetched decode s)"
      by (simp add: fetched_def)
    from step_total [OF Suc.prems this] obtain s1 where s1: "step decode s = Inr s1"
      by blast
    from Suc.IH [OF step_wf [OF s1 Suc.prems]] False s1 show ?thesis
      by simp
  qed
qed

lemma reachable_wf: "reachable decode b s \<Longrightarrow> cpu_wf s"
proof (induction rule: reachable.induct)
  case (constructed mem)
  show ?case by (rule cpu_wf_init)
next
  case (stepped b s s')
  then show ?case by (simp add: step_wf)
next
  case (run_started b s from_addr s')
  then show ?case
    using reg_put_wf [of 15 from_addr "s\<lparr>halted := False\<rparr>" s']
    by (simp add: run_init_def cpu_wf_updates)
next
  case (memory_loaded b s mem)
  then show ?case by (simp add: cpu_wf_updates)
qed

lemma exec_flag_true: "cond_true (snd (exec opc x y))"
  by (simp add: exec_unfold flag_defs split: sum.splits)

lemma reachable_cond_true: "reachable decode b s \<Longrightarrow> cond_true (condition s)"
proof (induction rule: reachable.induct)
  case (constructed mem)
  show ?case by (simp add: CPU_init_def flag_defs)
next
  case (stepped b s s')
  from stepped(2) have
    "condition s' = (if test_passes decode s then snd (alu_out decode s) else condition s)"
    by (rule step_flags(1))
  moreover have "cond_true (snd (alu_out decode s))"
    by (simp add: alu_out_def Let_def exec_flag_true)
  ultimately show ?case
    using stepped(3) by simp
next
  case (run_started b s from_addr s')
  then show ?case by (simp add: run_init_condition)
next
  case (memory_loaded b s mem)
  then show ?case by simp
qed

lemma cond_and_ALWAYS: "cond_and c CondFlag_ALWAYS = c"
  by (cases c) (simp add: flag_defs)

lemma step_add_5:
  assumes wf: "cpu_wf s" and ne: "cond_true (condition s)"
    and add: "fetched decode s =
       \<lparr>op = ADD, cond = CondFlag_ALWAYS, reg_target = 1, reg_src1 = 0, reg_src2 = 0, offset = 5\<rparr>"
  shows "\<exists>s'. step decode s = Inr s' \<and> cpu_wf s' \<and> PC s' = PC s + 1
     \<and> registers s' ! 1 = Register 5 \<and> condition s' = CondFlag_P
     \<and> halted s' = halted s \<and> memory s' = memory s"
proof -
  have pass: "test_passes decode s"
    using ne by (simp add: test_passes_def add cond_and_ALWAYS)
  have valid: "valid_instr (fetched decode s)"
    by (simp add: add valid_instr_def)
  have out: "alu_out decode s = (5, CondFlag_P)"
    using cpu_wf_zero [OF wf] by (simp add: alu_out_def add exec_unfold alu_apply_simps)
  have len: "length (registers s) = 16"
    by (rule cpu_wf_length [OF wf])
  obtain v where v: "registers s ! Suc 0 = Register v"
    using cpu_wf_plain [OF wf, of "Suc 0"] by auto
  obtain s' where s': "step decode s = Inr s'"
    using step_executed [OF wf pass valid] by (simp add: Let_def add)
  from step_executed [OF wf pass valid] s' have
    "s' = s\<lparr>registers := ((registers s)[15 := Register (PC s + 1)])[1 := Register 5],
            condition := CondFlag_P, halted := halted s,
            trace := trace s @
              [Notify \<lparr>pc_addr = memory s (PC s), instr_word = PC s, instr = fetched decode s\<rparr>,
               RegPut 15 (PC s + 1), RegPut 1 5]\<rparr>"
    by (simp add: Let_def add out v flags_distinct)
  with s' step_wf [OF s' wf] len show ?thesis
    by (simp add: PC_def)
qed

lemma step_halt_passing:
  assumes wf: "cpu_wf s" and pass: "test_passes decode s"
    and halt: "op (fetched decode s) = HALT" and valid: "valid_instr (fetched decode s)"
  shows "\<exists>s'. step decode s = Inr s' \<and> halted s' \<and> PC s' = PC s + 1
     \<and> (\<forall>i. i \<noteq> 15 \<longrightarrow> registers s' ! i = registers s ! i)"
  using step_executed [OF wf pass valid] halt cpu_wf_length [OF wf]
  by (simp add: Let_def PC_def)

lemma example_valid: "\<forall>w. valid_instr (example_decode w)"
  by (simp add: example_decode_def valid_instr_def)

lemma example_run_add_halt:
  "loop_n example_decode (Suc (Suc 0)) (projr (run_init 0 (CPU_init (example_memory [1, 0])))) =
     Inr \<lparr>memory = example_memory [1, 0],
          registers = [ZeroRegister, Register 5, Register 0, Register 0,
                       Register 0, Register 0, Register 0, Register 0,
                       Register 0, Register 0, Register 0, Register 0,
                       Register 0, Register 0, Register 0, Register 2],
          condition = CondFlag_Z, halted = True,
          trace = [RegPut 15 0,
                   Notify \<lparr>pc_addr = 1, instr_word = 0, instr = example_decode 1\<rparr>,
                   RegPut 15 1, RegPut 1 5,
                   Notify \<lparr>pc_addr = 0, instr_word = 1, instr = example_decode 0\<rparr>,
                   RegPut 15 2]\<rparr>"
  by (simp add: run_init_def step_defs example_defs flag_defs)

text \<open>
  C8. On a register file as constructed and with a decoder that keeps its guarantee,
  \<^verbatim>\<open>run\<close> first clears halted and puts the start address into register 15 and
  then runs its loop from that state. After any number of iterations the loop is in
  a state \<open>sn\<close> without having raised; if \<open>sn\<close> is halted, \<^verbatim>\<open>run\<close> has
  returned there; if not, the next step returns normally and sets halted exactly when
  its condition test passes and its instruction is a Halt or makes the ALU return
  Fault: then \<^verbatim>\<open>run\<close> returns after that step, otherwise the loop goes on.
  Whenever \<^verbatim>\<open>run\<close> returns, it returns normally, in a halted state that the
  loop has reached.
\<close>

theorem run_halts_on_halt_or_fault:
  assumes wf: "cpu_wf s" and dec: "\<forall>w. valid_instr (decode w)"
  shows "\<exists>s0. run_init from_addr s = Inr s0 \<and> \<not> halted s0 \<and> PC s0 = from_addr
     \<and> run decode from_addr s = run_loop decode s0
     \<and> (\<forall>n. \<exists>sn. loop_n decode n s0 = Inr sn
           \<and> (halted sn \<longrightarrow> run decode from_addr s = Some (Inr sn))
           \<and> (\<not> halted sn \<longrightarrow>
                (\<exists>s'. step decode sn = Inr s'
                   \<and> (halted s' \<longleftrightarrow> test_passes decode sn
                         \<and> (op (fetched decode sn) = HALT \<or> snd (alu_out decode sn) = CondFlag_V))
                   \<and> (halted s' \<longrightarrow> run decode from_addr s = Some (Inr s'))
                   \<and> (\<not> halted s' \<longrightarrow> run decode from_addr s = run_loop decode s'))))
     \<and> (\<forall>r. run decode from_addr s = Some r \<longrightarrow>
           (\<exists>n sn. r = Inr sn \<and> loop_n decode n s0 = Inr sn \<and> halted sn))"
proof -
  let ?s0 = "s\<lparr>halted := False, registers := (registers s)[15 := Register from_addr],
            trace := trace s @ [RegPut 15 from_addr]\<rparr>"
  have init: "run_init from_addr s = Inr ?s0"
    by (rule run_init_result [OF wf])
  have wf0: "cpu_wf ?s0"
    using reg_put_wf [of 15 from_addr "s\<lparr>halted := False\<rparr>" ?s0] init wf
    by (simp add: run_init_def cpu_wf_updates)
  have run: "run decode from_addr s = run_loop decode ?s0"
    by (simp add: run_def init)
  have pc0: "PC ?s0 = from_addr"
    using cpu_wf_length [OF wf] by (simp add: PC_def)
  have loop: "\<exists>sn. loop_n decode n ?s0 = Inr sn
           \<and> (halted sn \<longrightarrow> run decode from_addr s = Some (Inr sn))
           \<and> (\<not> halted sn \<longrightarrow>
                (\<exists>s'. step decode sn = Inr s'
                   \<and> (halted s' \<longleftrightarrow> test_passes decode sn
                         \<and> (op (fetched decode sn) = HALT \<or> snd (alu_out decode sn) = CondFlag_V))
                   \<and> (halted s' \<longrightarrow> run decode from_addr s = Some (Inr s'))
                   \<and> (\<not> halted s' \<longrightarrow> run decode from_addr s = run_loop decode s')))" for n
  proof -
    from loop_n_total [OF dec wf0] obtain sn where sn: "loop_n decode n ?s0 = Inr sn"
      by blast
    have eq: "run decode from_addr s = run_loop decode sn"
      using run run_loop_loop_n [OF sn] by simp
    have wfn: "cpu_wf sn"
      by (rule loop_n_wf [OF sn wf0])
    have a: "halted sn \<longrightarrow> run decode from_addr s = Some (Inr sn)"
      using eq by (simp add: run_loop_halted)
    have b: "\<exists>s'. step decode sn = Inr s'
                   \<and> (halted s' \<longleftrightarrow> test_passes decode sn
                         \<and> (op (fetched decode sn) = HALT \<or> snd (alu_out decode sn) = CondFlag_V))
                   \<and> (halted s' \<longrightarrow> run decode from_addr s = Some (Inr s'))
                   \<and> (\<not> halted s' \<longrightarrow> run decode from_addr s = run_loop decode s')"
      if nh: "\<not> halted sn"
    proof -
      from dec have "valid_instr (fetched decode sn)"
        by (simp add: fetched_def)
      from step_total [OF wfn this] obtain s' where s': "step decode sn = Inr s'"
        by blast
      have h: "halted s' \<longleftrightarrow> test_passes decode sn
                         \<and> (op (fetched decode sn) = HALT \<or> snd (alu_out decode sn) = CondFlag_V)"
        using step_flags(2) [OF s'] nh by simp
      have eq': "run decode from_addr s = run_loop decode s'"
        using eq run_loop_step [OF nh s'] by simp
      then have "halted s' \<longrightarrow> run decode from_addr s = Some (Inr s')"
        by (simp add: run_loop_halted)
      with s' h eq' show ?thesis by blast
    qed
    from sn a b show ?thesis by blast
  qed
  have ret: "\<exists>n sn. r = Inr sn \<and> loop_n decode n ?s0 = Inr sn \<and> halted sn"
    if r: "run decode from_addr s = Some r" for r
  proof -
    from r run have "run_loop decode ?s0 = Some r" by simp
    from run_loop_returns [OF this] obtain n where
      n: "loop_n decode n ?s0 = r" "case r of Inl e \<Rightarrow> True | Inr s' \<Rightarrow> halted s'"
      by blast
    from loop_n_total [OF dec wf0, of n] n(1) obtain sn where "r = Inr sn" by auto
    with n show ?thesis by auto
  qed
  have nh0: "\<not> halted ?s0"
    by simp
  have all_n: "\<forall>n. \<exists>sn. loop_n decode n ?s0 = Inr sn
           \<and> (halted sn \<longrightarrow> run decode from_addr s = Some (Inr sn))
           \<and> (\<not> halted sn \<longrightarrow>
                (\<exists>s'. step decode sn = Inr s'
                   \<and> (halted s' \<longleftrightarrow> test_passes decode sn
                         \<and> (op (fetched decode sn) = HALT \<or> snd (alu_out decode sn) = CondFlag_V))
                   \<and> (halted s' \<longrightarrow> run decode from_addr s = Some (Inr s'))
                   \<and> (\<not> halted s' \<longrightarrow> run decode from_addr s = run_loop decode s')))"
    using loop by blast
  have all_r: "\<forall>r. run decode from_addr s = Some r \<longrightarrow>
           (\<exists>n sn. r = Inr sn \<and> loop_n decode n ?s0 = Inr sn \<and> halted sn)"
    using ret by blast
  from init nh0 pc0 run all_n all_r show ?thesis
    by - (rule exI [of _ ?s0], intro conjI, assumption+)
qed

theorem run_halts_on_halt_or_fault_witness:
  "cpu_wf (CPU_init (example_memory [1, 0]))
   \<and> (\<forall>w. valid_instr (example_decode w))
   \<and> run example_decode 0 (CPU_init (example_memory [1, 0])) =
       Some (loop_n example_decode (Suc (Suc 0))
               (projr (run_init 0 (CPU_init (example_memory [1, 0])))))
   \<and> halted (projr (loop_n example_decode (Suc (Suc 0))
               (projr (run_init 0 (CPU_init (example_memory [1, 0]))))))"
proof -
  let ?c = "CPU_init (example_memory [1, 0])"
  have wf: "cpu_wf ?c"
    by (rule cpu_wf_init)
  from run_halts_on_halt_or_fault [OF wf example_valid, of 0] obtain s0 where
    s0: "run_init 0 ?c = Inr s0"
    and steps: "\<forall>n. \<exists>sn. loop_n example_decode n s0 = Inr sn
           \<and> (halted sn \<longrightarrow> run example_decode 0 ?c = Some (Inr sn))
           \<and> (\<not> halted sn \<longrightarrow>
                (\<exists>s'. step example_decode sn = Inr s'
                   \<and> (halted s' \<longleftrightarrow> test_passes example_decode sn
                         \<and> (op (fetched example_decode sn) = HALT
                              \<or> snd (alu_out example_decode sn) = CondFlag_V))
                   \<and> (halted s' \<longrightarrow> run example_decode 0 ?c = Some (Inr s'))
                   \<and> (\<not> halted s' \<longrightarrow> run example_decode 0 ?c = run_loop example_decode s')))"
    by blast
  from s0 have p: "projr (run_init 0 ?c) = s0"
    by simp
  from steps obtain sn where sn: "loop_n example_decode (Suc (Suc 0)) s0 = Inr sn"
    "halted sn \<longrightarrow> run example_decode 0 ?c = Some (Inr sn)"
    by blast
  from sn(1) example_run_add_halt have h: "halted sn"
    unfolding p by auto
  with sn have "run example_decode 0 ?c = Some (loop_n example_decode (Suc (Suc 0)) s0)"
    by simp
  with h sn(1) wf example_valid show ?thesis
    unfolding p by simp
qed

text \<open>
  C9. In every reachable state of the CPU whose memory holds at address 0 a word
  decoding to \<open>ADD r1,r0,r0[5]\<close> with the mask always, and at address 1 a word
  decoding to a Halt instruction (an unconditional one, or any other whose mask includes
  Plus; its register indices below 16, as the decoder guarantees),
  \<^verbatim>\<open>run(from_addr=0)\<close> returns normally, with register 1 equal to 5, the program
  counter equal to 2, and halted true.
\<close>

theorem run_add_then_halt:
  assumes reach: "reachable decode b s"
    and add: "decode (memory s 0) =
       \<lparr>op = ADD, cond = CondFlag_ALWAYS, reg_target = 1, reg_src1 = 0, reg_src2 = 0, offset = 5\<rparr>"
    and halt: "op (decode (memory s 1)) = HALT"
    and mask: "has_P (cond (decode (memory s 1)))"
    and valid: "valid_instr (decode (memory s 1))"
  shows "\<exists>s'. run decode 0 s = Some (Inr s')
     \<and> get (registers s' ! 1) = 5 \<and> PC s' = 2 \<and> halted s'"
proof -
  have wf: "cpu_wf s" by (rule reachable_wf [OF reach])
  have ne: "cond_true (condition s)" by (rule reachable_cond_true [OF reach])
  let ?s0 = "s\<lparr>halted := False, registers := (registers s)[15 := Register 0],
            trace := trace s @ [RegPut 15 0]\<rparr>"
  have init: "run_init 0 s = Inr ?s0"
    by (rule run_init_result [OF wf])
  have wf0: "cpu_wf ?s0"
    using reg_put_wf [of 15 0 "s\<lparr>halted := False\<rparr>" ?s0] init wf
    by (simp add: run_init_def cpu_wf_updates)
  have pc0: "PC ?s0 = 0"
    using cpu_wf_length [OF wf] by (simp add: PC_def)
  have f0: "fetched decode ?s0 =
       \<lparr>op = ADD, cond = CondFlag_ALWAYS, reg_target = 1, reg_src1 = 0, reg_src2 = 0, offset = 5\<rparr>"
    using add by (simp add: fetched_def pc0)
  have ne0: "cond_true (condition ?s0)"
    using ne by simp
  from step_add_5 [OF wf0 ne0 f0] pc0 obtain s1 where s1: "step decode ?s0 = Inr s1"
    "cpu_wf s1" "PC s1 = 1" "registers s1 ! 1 = Register 5" "condition s1 = CondFlag_P"
    "\<not> halted s1" "memory s1 = memory s"
    by auto
  have f1: "fetched decode s1 = decode (memory s 1)"
    by (simp add: fetched_def s1)
  have pass1: "test_passes decode s1"
    using mask by (simp add: test_passes_def f1 s1 flag_defs)
  from step_halt_passing [OF s1(2) pass1] halt valid f1 s1(3) obtain s2 where
    s2: "step decode s1 = Inr s2" "halted s2" "PC s2 = 2"
    "\<forall>i. i \<noteq> 15 \<longrightarrow> registers s2 ! i = registers s1 ! i"
    by auto
  have "run decode 0 s = run_loop decode ?s0"
    by (simp add: run_def init)
  also have "\<dots> = run_loop decode s1"
    by (rule run_loop_step [OF _ s1(1)]) simp
  also have "\<dots> = run_loop decode s2"
    by (rule run_loop_step [OF s1(6) s2(1)])
  also have "\<dots> = Some (Inr s2)"
    by (rule run_loop_halted [OF s2(2)])
  finally have "run decode 0 s = Some (Inr s2)" .
  moreover from s2(4) s1(4) have "get (registers s2 ! 1) = 5"
    by simp
  ultimately show ?thesis
    using s2(2,3) by blast
qed

theorem run_add_then_halt_witness:
  "reachable example_decode False (CPU_init (example_memory [1, 0]))
   \<and> (\<exists>s'. run example_decode 0 (CPU_init (example_memory [1, 0])) = Some (Inr s')
          \<and> get (registers s' ! 1) = 5 \<and> PC s' = 2 \<and> halted s')"
proof -
  let ?c = "CPU_init (example_memory [1, 0])"
  have r: "reachable example_decode False ?c"
    by (rule reachable.constructed)
  have add: "example_decode (memory ?c 0) =
       \<lparr>op = ADD, cond = CondFlag_ALWAYS, reg_target = 1, reg_src1 = 0, reg_src2 = 0, offset = 5\<rparr>"
    by (simp add: example_defs)
  have halt: "op (example_decode (memory ?c 1)) = HALT"
    by (simp add: example_defs)
  have mask: "has_P (cond (example_decode (memory ?c 1)))"
    by (simp add: example_defs flag_defs)
  have valid: "valid_instr (example_decode (memory ?c 1))"
    using example_valid by blast
  from run_add_then_halt [OF r add halt mask valid] r show ?thesis
    by blast
qed

end
